theory Spec2Isabelle
  imports Main "HOL-Library.AList" "HOL-Library.Multiset"
begin

section \<open>Tags and errors (tag.go, validator.go)\<close>

text \<open>
  A \<open>Tag\<close> is the Go struct \<open>Tag{name, value, structName}\<close>; the selectors are its
  getters. Go strings are byte sequences, modelled as \<open>string\<close>.
\<close>

datatype Tag = Tag (GetName: string) (GetValue: string) (GetStructName: string)

text \<open>
  An error value is what \<open>errors.New\<close> or \<open>fmt.Errorf\<close> was called with: the
  message, or the format string and the arguments given for its \<open>%v\<close> verbs.
\<close>

datatype error = New string | Errorf string "string list"

text \<open>
  A panic carries an error value (\<open>panic(err)\<close> in getPackages) or is raised by the
  runtime (calling a nil func, compiling a malformed expression).
\<close>

datatype panic = PanicError error | PanicRuntime string

definition AllTags :: string where
  "AllTags = ''*''"

text \<open>
  \<open>strings.Join\<close>, \<open>strings.HasSuffix\<close> and \<open>strings.ToLower\<close>. \<open>ToLower\<close>
  maps the ASCII letters \<open>A\<close> to \<open>Z\<close> and keeps every other byte, so it is Go's
  function on ASCII names only (Go also lowers letters beyond ASCII).
\<close>

fun Join :: "string list \<Rightarrow> string \<Rightarrow> string" where
  "Join [] sep = []"
| "Join [x] sep = x"
| "Join (x # y # ys) sep = x @ sep @ Join (y # ys) sep"

definition HasSuffix :: "string \<Rightarrow> string \<Rightarrow> bool" where
  "HasSuffix s suffix \<longleftrightarrow>
     length suffix \<le> length s \<and> drop (length s - length suffix) s = suffix"

definition inRange :: "char \<Rightarrow> char \<Rightarrow> char \<Rightarrow> bool" where
  "inRange lo hi c \<longleftrightarrow> (of_char lo :: nat) \<le> of_char c \<and> (of_char c :: nat) \<le> of_char hi"

definition toLowerChar :: "char \<Rightarrow> char" where
  "toLowerChar c = (if inRange CHR ''A'' CHR ''Z'' c then char_of (of_char c + (32::nat)) else c)"

definition ToLower :: "string \<Rightarrow> string" where
  "ToLower s = map toLowerChar s"

section \<open>The two regular expressions of defaultRegexRules\<close>

text \<open>
  The source uses two shapes of expression, both over a negated character class given by
  ranges: \<open>[^...]+\<close> and \<open>[^...]$\<close>. \<open>FindString\<close> returns the leftmost match, or
  the empty string when there is none. A greedy \<open>+\<close> takes the whole run; \<open>$\<close>
  (no multi-line flag) is the end of the text. Go matches runes of the UTF-8 text; the
  classes hold ASCII characters only, so a run of bytes outside the ranges is a run of
  runes outside them, and whether an expression matches is decided bytewise. The text
  returned for \<open>[^...]$\<close> is the last byte, which is the last rune unless the value
  ends in a multi-byte rune.
\<close>

datatype regexp = NegClassPlus "(char \<times> char) list" | NegClassEnd "(char \<times> char) list"

definition inClass :: "(char \<times> char) list \<Rightarrow> char \<Rightarrow> bool" where
  "inClass rs c \<longleftrightarrow> list_ex (\<lambda>(lo, hi). inRange lo hi c) rs"

fun FindString :: "regexp \<Rightarrow> string \<Rightarrow> string" where
  "FindString (NegClassPlus rs) s =
     takeWhile (\<lambda>c. \<not> inClass rs c) (dropWhile (inClass rs) s)"
| "FindString (NegClassEnd rs) s =
     (if s = [] then [] else if inClass rs (last s) then [] else [last s])"

definition symbolsMsg :: string where
  "symbolsMsg = ''Invalid symboles %v in %v.%v.%v''"

definition endMsg :: string where
  "endMsg = ''Tag cannot end on %v in  %v.%v.%v''"

definition symbolsClass :: "(char \<times> char) list" where
  "symbolsClass = [(CHR ''a'', CHR ''z''), (CHR ''0'', CHR ''9''), (CHR ''_'', CHR ''_''),
                   (CHR '','', CHR '',''), (CHR '' '', CHR '' '')]"

definition endClass :: "(char \<times> char) list" where
  "endClass = [(CHR ''a'', CHR ''z''), (CHR ''0'', CHR ''9'')]"

definition defaultRegexRules :: "(string \<times> regexp) list" where
  "defaultRegexRules =
     [(symbolsMsg, NegClassPlus symbolsClass),
      (endMsg, NegClassEnd endClass)]"

section \<open>The default processors (AddDefaultProcessors)\<close>

text \<open>
  The body of the first closure: one pass over \<open>defaultRegexRules\<close>, here in the order
  of the map literal (Go visits a map in an unspecified order, so the two errors of one
  tag may come in either order; no statement below depends on it).
\<close>

definition regexRuleStep :: "Tag \<Rightarrow> error list \<Rightarrow> string \<times> regexp \<Rightarrow> error list" where
  "regexRuleStep tag errs rule =
     (case rule of (msg, rexpr) \<Rightarrow>
        let match = FindString rexpr (GetValue tag) in
        if length match > 0
        then errs @ [Errorf msg [match, GetStructName tag, GetName tag, GetValue tag]]
        else errs)"

definition regexProcessor :: "Tag \<Rightarrow> error list" where
  "regexProcessor tag = foldl (regexRuleStep tag) [] defaultRegexRules"

definition emptyMsg :: string where
  "emptyMsg = ''Tag cannot be empty %v.%v''"

definition emptyProcessor :: "Tag \<Rightarrow> error list" where
  "emptyProcessor tag =
     (if length (GetValue tag) = 0
      then [] @ [Errorf emptyMsg [GetStructName tag, GetName tag]]
      else [])"

section \<open>Slices of processors in a store\<close>

text \<open>
  A registered processor is a Go func value; \<open>None\<close> is the nil func. A slice is a
  header (backing array, length, capacity); the backing arrays live in a store, so that
  two headers over one array share what is written through either. \<open>append_slice\<close> is
  Go's built-in \<open>append\<close>: it writes in place while the capacity suffices and moves to
  a new array otherwise. The capacity of the new array is the runtime's choice
  (\<open>grow\<close>), at least the length needed. A processor is taken to be a total function
  of the tag without effects on the validator or the store.
\<close>

type_synonym func = "(Tag \<Rightarrow> error list) option"

record slice =
  arr :: nat
  len :: nat
  cap :: nat

record heap =
  arrays :: "nat \<Rightarrow> func list"
  fresh :: nat

definition nilSlice :: slice where
  "nilSlice = \<lparr>arr = 0, len = 0, cap = 0\<rparr>"

definition heap0 :: heap where
  "heap0 = \<lparr>arrays = (\<lambda>a. []), fresh = 1\<rparr>"

definition elems :: "heap \<Rightarrow> slice \<Rightarrow> func list" where
  "elems h s = take (len s) (arrays h (arr s))"

definition append_slice ::
  "(nat \<Rightarrow> nat \<Rightarrow> nat) \<Rightarrow> slice \<Rightarrow> func list \<Rightarrow> heap \<Rightarrow> slice \<times> heap" where
  "append_slice grow s xs h =
     (let n = len s + length xs in
      if n \<le> cap s
      then (s\<lparr>len := n\<rparr>,
            h\<lparr>arrays := (arrays h)(arr s := elems h s @ xs @ drop n (arrays h (arr s)))\<rparr>)
      else (let c = max n (grow (cap s) n) in
            (\<lparr>arr = fresh h, len = n, cap = c\<rparr>,
             h\<lparr>arrays := (arrays h)(fresh h := elems h s @ xs @ replicate (c - n) None),
               fresh := fresh h + 1\<rparr>)))"

section \<open>The validator (validator.go)\<close>

text \<open>
  The Go maps of the validator are association lists read with \<open>map_of\<close> and written
  with \<open>AList.update\<close>; the order of \<open>tags\<close> stands for the order in which the
  \<open>range\<close> loop of validate visits the map, which Go leaves open. A program state is
  a validator together with the store. The registry of a validator made by NewValidator
  is an allocated map; a nil map reads the same.
\<close>

record 'p Validator =
  packages :: "(string \<times> 'p) list"
  tags :: "(string \<times> Tag list) list"
  processors :: "(string \<times> slice) list"
  path :: string
  allowDuplicates :: bool

definition NewValidator :: "string \<Rightarrow> 'p Validator" where
  "NewValidator p =
     \<lparr>packages = [], tags = [], processors = [], path = p, allowDuplicates = False\<rparr>"

definition SetAllowDuplicates :: "bool \<Rightarrow> 'p Validator \<Rightarrow> 'p Validator" where
  "SetAllowDuplicates b v = v\<lparr>allowDuplicates := b\<rparr>"

text \<open>The statement \<open>v.processors[tag] = append(v.processors[tag], processor)\<close>; a key
  that is absent reads as the nil slice.\<close>

definition AddProcessor ::
  "(nat \<Rightarrow> nat \<Rightarrow> nat) \<Rightarrow> string \<Rightarrow> func \<Rightarrow> 'p Validator \<times> heap \<Rightarrow> 'p Validator \<times> heap" where
  "AddProcessor grow tag processor st =
     (case st of (v, h) \<Rightarrow>
        let old = (case map_of (processors v) tag of None \<Rightarrow> nilSlice | Some s \<Rightarrow> s);
            (s, h') = append_slice grow old [processor] h
        in (v\<lparr>processors := AList.update tag s (processors v)\<rparr>, h'))"

definition AddDefaultProcessors ::
  "(nat \<Rightarrow> nat \<Rightarrow> nat) \<Rightarrow> string list \<Rightarrow> 'p Validator \<times> heap \<Rightarrow> 'p Validator \<times> heap" where
  "AddDefaultProcessors grow tagStrs st =
     (let tagStrs = (if length tagStrs = 0 then [AllTags] else tagStrs) in
      foldl (\<lambda>st tagStr.
               AddProcessor grow tagStr (Some emptyProcessor)
                 (AddProcessor grow tagStr (Some regexProcessor) st))
        st tagStrs)"

definition duplicateMsg :: string where
  "duplicateMsg = ''Duplicate tag value %v in %v.%v''"

definition cacheKey :: "Tag \<Rightarrow> string" where
  "cacheKey t = Join [GetStructName t, GetName t, GetValue t] ''.''"

definition checkForDuplicates ::
  "Tag \<Rightarrow> (string \<times> bool) list \<Rightarrow> error list \<times> (string \<times> bool) list" where
  "checkForDuplicates t fieldsCache =
     (let errs = (if map_of fieldsCache (cacheKey t) \<noteq> None
                  then [Errorf duplicateMsg [GetValue t, GetStructName t, GetName t]]
                  else [])
      in (errs, AList.update (cacheKey t) True fieldsCache))"

text \<open>Calling the executable processors in order; a nil func panics.\<close>

fun callProcessors :: "func list \<Rightarrow> Tag \<Rightarrow> error list \<Rightarrow> panic + error list" where
  "callProcessors [] t errs = Inr errs"
| "callProcessors (None # ps) t errs = Inl (PanicRuntime ''nil func call'')"
| "callProcessors (Some processor # ps) t errs = callProcessors ps t (errs @ processor t)"

text \<open>The body of the inner loop of validate, on the loop state (store, duplicate cache,
  errors so far).\<close>

definition validateTag ::
  "(nat \<Rightarrow> nat \<Rightarrow> nat) \<Rightarrow> 'p Validator \<Rightarrow> Tag \<Rightarrow> heap \<times> (string \<times> bool) list \<times> error list
     \<Rightarrow> panic + heap \<times> (string \<times> bool) list \<times> error list" where
  "validateTag grow v t st =
     (case st of (h, fieldsCache, errs) \<Rightarrow>
        let (errs, fieldsCache) =
              (if \<not> allowDuplicates v
               then (case checkForDuplicates t fieldsCache of (d, c) \<Rightarrow> (errs @ d, c))
               else (errs, fieldsCache));
            (executableProcessors, h) =
              (case map_of (processors v) (GetName t) of
                 Some ps \<Rightarrow> append_slice grow ps [] h
               | None \<Rightarrow> (nilSlice, h));
            (executableProcessors, h) =
              (case map_of (processors v) AllTags of
                 Some globalProcessors \<Rightarrow>
                   append_slice grow executableProcessors (elems h globalProcessors) h
               | None \<Rightarrow> (executableProcessors, h))
        in (case callProcessors (elems h executableProcessors) t errs of
              Inl p \<Rightarrow> Inl p
            | Inr errs \<Rightarrow> Inr (h, fieldsCache, errs)))"

fun validateFields ::
  "(nat \<Rightarrow> nat \<Rightarrow> nat) \<Rightarrow> 'p Validator \<Rightarrow> Tag list \<Rightarrow> heap \<times> (string \<times> bool) list \<times> error list
     \<Rightarrow> panic + heap \<times> (string \<times> bool) list \<times> error list" where
  "validateFields grow v [] st = Inr st"
| "validateFields grow v (t # ts) st =
     (case validateTag grow v t st of
        Inl p \<Rightarrow> Inl p
      | Inr st' \<Rightarrow> validateFields grow v ts st')"

fun validateStructs ::
  "(nat \<Rightarrow> nat \<Rightarrow> nat) \<Rightarrow> 'p Validator \<Rightarrow> (string \<times> Tag list) list
     \<Rightarrow> heap \<times> (string \<times> bool) list \<times> error list
     \<Rightarrow> panic + heap \<times> (string \<times> bool) list \<times> error list" where
  "validateStructs grow v [] st = Inr st"
| "validateStructs grow v ((structName, fs) # rest) st =
     (case validateFields grow v fs st of
        Inl p \<Rightarrow> Inl p
      | Inr st' \<Rightarrow> validateStructs grow v rest st')"

definition validate ::
  "(nat \<Rightarrow> nat \<Rightarrow> nat) \<Rightarrow> 'p Validator \<times> heap \<Rightarrow> panic + ('p Validator \<times> heap) \<times> error list" where
  "validate grow st =
     (case st of (v, h) \<Rightarrow>
        if length (tags v) = 0 then Inr ((v, h), [New ''No tags found''])
        else (case validateStructs grow v (tags v) (h, [], []) of
                Inl p \<Rightarrow> Inl p
              | Inr (h', fieldsCache, errs) \<Rightarrow> Inr ((v, h'), errs)))"

section \<open>Scanning and extraction (tag.go)\<close>

text \<open>
  What lies outside the repository is a parameter: the environment variable, the path
  join, \<open>parser.ParseDir\<close> (which returns the packages of the files its filter accepts
  together with the first error, if any), and \<open>receive\<close>, the sequence of tags that
  getTags reads from the multiplexed channel for the expression it compiled (a panic when
  the expression does not compile).
\<close>

record 'p env =
  Getenv :: "string \<Rightarrow> string"
  filepath_Join :: "string \<Rightarrow> string \<Rightarrow> string"
  ParseDir :: "string \<Rightarrow> (string \<Rightarrow> bool) \<Rightarrow> (string \<times> 'p) list \<times> error option"
  receive :: "string \<Rightarrow> (string \<times> 'p) list \<Rightarrow> panic + Tag list"

definition modelMap :: "string list \<Rightarrow> (string \<times> bool) list" where
  "modelMap models =
     foldl (\<lambda>m model. AList.update (Join [ToLower model, ''go''] ''.'') True m) [] models"

text \<open>The filter closure handed to \<open>parser.ParseDir\<close>, applied to a file's base name.\<close>

definition fileFilter :: "string list \<Rightarrow> string \<Rightarrow> bool" where
  "fileFilter models fName =
     (let isNotTest = (\<not> HasSuffix fName ''_test.go'') in
      if length (modelMap models) > 0
      then (let exists = (map_of (modelMap models) (ToLower fName) \<noteq> None) in
            isNotTest \<noteq> (\<not> exists))
      else isNotTest)"

definition scanPath :: "'p env \<Rightarrow> string \<Rightarrow> string" where
  "scanPath e folder = filepath_Join e (filepath_Join e (Getenv e ''GOPATH'') ''src'') folder"

definition getPackages :: "'p env \<Rightarrow> string \<Rightarrow> string list \<Rightarrow> panic + (string \<times> 'p) list" where
  "getPackages e folder models =
     (let p = scanPath e folder in
      case ParseDir e p (fileFilter models) of (pkgs, err) \<Rightarrow>
        (case err of
           Some er \<Rightarrow> Inl (PanicError er)
         | None \<Rightarrow>
             if length pkgs = 0 then Inl (PanicError (Errorf ''No structs found at %v'' [p]))
             else Inr pkgs))"

definition dbRegex :: "string list \<Rightarrow> string" where
  \<open>dbRegex tagNames =
     (let concatNames = (if AllTags \<in> set tagNames then ''[a-z0-9_]+''
                         else Join tagNames ''|'')
      in Join [''('', concatNames, '')'', ''[ ]*:[ ]*"([^"]*)"''] [])\<close>

text \<open>The statement \<open>tags[tag.structName] = append(tags[tag.structName], tag)\<close>.\<close>

definition appendTag :: "(string \<times> Tag list) list \<Rightarrow> Tag \<Rightarrow> (string \<times> Tag list) list" where
  "appendTag tagMap tag =
     AList.update (GetStructName tag)
       ((case map_of tagMap (GetStructName tag) of None \<Rightarrow> [] | Some fs \<Rightarrow> fs) @ [tag])
       tagMap"

definition getTags ::
  "'p env \<Rightarrow> string list \<Rightarrow> (string \<times> 'p) list \<Rightarrow> panic + (string \<times> Tag list) list" where
  "getTags e tagNames pkgs =
     (case receive e (dbRegex tagNames) pkgs of
        Inl p \<Rightarrow> Inl p
      | Inr ts \<Rightarrow> Inr (foldl appendTag [] ts))"

definition noProcessorsMsg :: string where
  "noProcessorsMsg = ''there are no processors to run, consider adding the default ones''"

definition Run ::
  "'p env \<Rightarrow> (nat \<Rightarrow> nat \<Rightarrow> nat) \<Rightarrow> string list \<Rightarrow> 'p Validator \<times> heap
     \<Rightarrow> panic + ('p Validator \<times> heap) \<times> error list" where
  "Run e grow models st =
     (case st of (v, h) \<Rightarrow>
        (case getPackages e (path v) models of
           Inl p \<Rightarrow> Inl p
         | Inr pkgs \<Rightarrow>
             let v = v\<lparr>packages := pkgs\<rparr> in
             if length (processors v) = 0 then Inr ((v, h), [New noProcessorsMsg])
             else (case getTags e (map fst (processors v)) (packages v) of
                     Inl p \<Rightarrow> Inl p
                   | Inr ts \<Rightarrow> validate grow (v\<lparr>tags := ts\<rparr>, h))))"

section \<open>Notions taken from the specification's wording\<close>

text \<open>
  The specification names the allowed characters of the character-set rule as
  \<open>[a-z0-9_ ]\<close>, and counts maximal runs of illegal characters. \<open>illegalRuns rs s\<close>
  is the number of maximal runs in \<open>s\<close> of characters outside the class \<open>rs\<close>.
\<close>

definition specSymbolsClass :: "(char \<times> char) list" where
  "specSymbolsClass = [(CHR ''a'', CHR ''z''), (CHR ''0'', CHR ''9''), (CHR ''_'', CHR ''_''),
                       (CHR '' '', CHR '' '')]"

fun runsFrom :: "(char \<Rightarrow> bool) \<Rightarrow> bool \<Rightarrow> string \<Rightarrow> nat" where
  "runsFrom legal inRun [] = 0"
| "runsFrom legal inRun (c # cs) =
     (if \<not> legal c \<and> \<not> inRun then 1 else 0) + runsFrom legal (\<not> legal c) cs"

definition illegalRuns :: "(char \<times> char) list \<Rightarrow> string \<Rightarrow> nat" where
  "illegalRuns rs s = runsFrom (inClass rs) False s"

definition isErrorf :: "string \<Rightarrow> error \<Rightarrow> bool" where
  "isErrorf msg e \<longleftrightarrow> (case e of Errorf m args \<Rightarrow> m = msg | New m \<Rightarrow> False)"

section \<open>Invariant and functional reading of a run\<close>

text \<open>
  \<open>wellFormed\<close> holds of every state reached from NewValidator through AddProcessor and
  AddDefaultProcessors: each registered slice has its own backing array, allocated, of
  the slice's capacity. \<open>registry\<close> is what a caller can observe of the Rule Registry:
  for each tag name the processors of its slice, in order.
\<close>

definition wellFormed :: "'p Validator \<times> heap \<Rightarrow> bool" where
  "wellFormed st \<longleftrightarrow>
     (case st of (v, h) \<Rightarrow>
        0 < fresh h \<and> distinct (map fst (processors v)) \<and>
        (\<forall>(k, s)\<in>set (processors v).
           0 < arr s \<and> arr s < fresh h \<and> len s \<le> cap s \<and>
           length (arrays h (arr s)) = cap s \<and>
           (\<forall>(k', s')\<in>set (processors v). arr s = arr s' \<longrightarrow> k = k')))"

definition registry :: "'p Validator \<times> heap \<Rightarrow> string \<Rightarrow> func list option" where
  "registry st k = (case st of (v, h) \<Rightarrow> map_option (elems h) (map_of (processors v) k))"

text \<open>The processors executed for a tag: those of its name, then those of \<open>*\<close>.\<close>

definition applicable :: "'p Validator \<times> heap \<Rightarrow> Tag \<Rightarrow> func list" where
  "applicable st t =
     (case registry st (GetName t) of None \<Rightarrow> [] | Some ps \<Rightarrow> ps) @
     (case registry st AllTags of None \<Rightarrow> [] | Some ps \<Rightarrow> ps)"

text \<open>
  The errors of a run as a function of the tags in processing order: for each tag the
  duplicate finding, if any, then the errors of the applicable processors, in order.
  \<open>cacheAfter\<close> is the duplicate cache after a sequence of tags, and \<open>callable\<close>
  says that no processor to be executed is nil.
\<close>

definition duplicateCheck ::
  "bool \<Rightarrow> Tag \<Rightarrow> (string \<times> bool) list \<Rightarrow> error list \<times> (string \<times> bool) list" where
  "duplicateCheck allowDup t fieldsCache =
     (if \<not> allowDup then checkForDuplicates t fieldsCache else ([], fieldsCache))"

definition results :: "func list \<Rightarrow> Tag \<Rightarrow> error list" where
  "results ps t = concat (map (\<lambda>p. case p of Some processor \<Rightarrow> processor t | None \<Rightarrow> []) ps)"

fun findings ::
  "bool \<Rightarrow> (Tag \<Rightarrow> func list) \<Rightarrow> (string \<times> bool) list \<Rightarrow> Tag list \<Rightarrow> error list" where
  "findings allowDup app fieldsCache [] = []"
| "findings allowDup app fieldsCache (t # ts) =
     fst (duplicateCheck allowDup t fieldsCache) @ results (app t) t @
     findings allowDup app (snd (duplicateCheck allowDup t fieldsCache)) ts"

definition cacheAfter :: "bool \<Rightarrow> (string \<times> bool) list \<Rightarrow> Tag list \<Rightarrow> (string \<times> bool) list" where
  "cacheAfter allowDup fieldsCache ts =
     foldl (\<lambda>c t. snd (duplicateCheck allowDup t c)) fieldsCache ts"

definition callable :: "(Tag \<Rightarrow> func list) \<Rightarrow> Tag list \<Rightarrow> bool" where
  "callable app ts \<longleftrightarrow> (\<forall>t\<in>set ts. None \<notin> set (app t))"

definition nilPanic :: "panic + 'a" where
  "nilPanic = Inl (PanicRuntime ''nil func call'')"

section \<open>Example inputs\<close>

text \<open>An environment whose scan yields the given packages and whose extraction yields
  the given tags, and a growth policy that doubles the capacity.\<close>

definition exampleEnv :: "(string \<times> unit) list \<Rightarrow> Tag list \<Rightarrow> unit env" where
  "exampleEnv pkgs ts =
     \<lparr>Getenv = (\<lambda>k. ''/go''), filepath_Join = (\<lambda>a b. a @ ''/'' @ b),
      ParseDir = (\<lambda>p f. (pkgs, None)), receive = (\<lambda>r ps. Inr ts)\<rparr>"

definition doubling :: "nat \<Rightarrow> nat \<Rightarrow> nat" where
  "doubling old n = 2 * old"

definition examplePkgs :: "(string \<times> unit) list" where
  "examplePkgs = [(''models'', ())]"

text \<open>A validator with the default processors registered for the given tag names, and
  one whose slice for \<open>db\<close> has spare capacity (three processors in an array of
  four) next to a processor for all tags.\<close>

definition defaultState :: "string list \<Rightarrow> unit Validator \<times> heap" where
  "defaultState tagStrs = AddDefaultProcessors doubling tagStrs (NewValidator ''models'', heap0)"


section \<open>The default rules\<close>

lemma FindString_plus_nonempty:
  "FindString (NegClassPlus rs) s \<noteq> [] \<longleftrightarrow> (\<exists>c\<in>set s. \<not> inClass rs c)"
proof (cases "dropWhile (inClass rs) s")
  case Nil
  then have "\<forall>c\<in>set s. inClass rs c"
    by (simp add: dropWhile_eq_Nil_conv)
  moreover have "FindString (NegClassPlus rs) s = []"
    by (simp add: Nil)
  ultimately show ?thesis by simp
next
  case (Cons a list)
  then have "\<not> inClass rs a"
    using hd_dropWhile [of "inClass rs" s] by simp
  moreover have "\<exists>c\<in>set s. \<not> inClass rs c"
    using Cons dropWhile_eq_Nil_conv [of "inClass rs" s] by auto
  ultimately show ?thesis using Cons by simp
qed

lemma regexProcessor_unfold:
  "regexProcessor tag =
     (if FindString (NegClassPlus symbolsClass) (GetValue tag) \<noteq> []
      then [Errorf symbolsMsg [FindString (NegClassPlus symbolsClass) (GetValue tag),
                               GetStructName tag, GetName tag, GetValue tag]]
      else []) @
     (if FindString (NegClassEnd endClass) (GetValue tag) \<noteq> []
      then [Errorf endMsg [FindString (NegClassEnd endClass) (GetValue tag),
                           GetStructName tag, GetName tag, GetValue tag]]
      else [])"
  by (simp add: regexProcessor_def defaultRegexRules_def regexRuleStep_def Let_def
           del: FindString.simps)

lemma msgs_distinct: "symbolsMsg \<noteq> endMsg"
  by (simp add: symbolsMsg_def endMsg_def)

lemma runsFrom_all_legal: "\<forall>c\<in>set s. legal c \<Longrightarrow> runsFrom legal b s = 0"
  by (induction s arbitrary: b) auto

lemma runsFrom_some_illegal: "\<exists>c\<in>set s. \<not> legal c \<Longrightarrow> 0 < runsFrom legal False s"
  by (induction s) auto

lemma illegalRuns_zero: "illegalRuns rs s = 0 \<longleftrightarrow> (\<forall>c\<in>set s. inClass rs c)"
proof
  assume "illegalRuns rs s = 0"
  then show "\<forall>c\<in>set s. inClass rs c"
    using runsFrom_some_illegal [of s "inClass rs"] by (auto simp: illegalRuns_def)
next
  assume "\<forall>c\<in>set s. inClass rs c"
  then show "illegalRuns rs s = 0"
    by (simp add: illegalRuns_def runsFrom_all_legal)
qed

lemmas class_eval = symbolsClass_def endClass_def specSymbolsClass_def inClass_def inRange_def

text \<open>
  C2, as stated, fails: the comma lies outside \<open>[a-z0-9_ ]\<close>, and the value \<open>a,b\<close>
  draws no error from the regular-expression processor, since the class of the source
  is \<open>[^a-z0-9_, ]\<close>.
\<close>

theorem symbols_rule_comma_counterexample:
  "CHR '','' \<in> set ''a,b'' \<and> \<not> inClass specSymbolsClass CHR '','' \<and>
   regexProcessor (Tag ''db'' ''a,b'' ''S'') = []"
  by (simp add: regexProcessor_unfold class_eval)

text \<open>
  C2, amended: the character-set rule reports a tag exactly when its value holds a
  character outside \<open>[a-z0-9_, ]\<close> (lowercase letters, digits, underscore, comma,
  space). A hyphen is reported; a comma is not.
\<close>

theorem symbols_rule_flags:
  "(\<exists>m. Errorf symbolsMsg [m, GetStructName tag, GetName tag, GetValue tag]
          \<in> set (regexProcessor tag))
     \<longleftrightarrow> (\<exists>c\<in>set (GetValue tag). \<not> inClass symbolsClass c)"
  using FindString_plus_nonempty [of symbolsClass "GetValue tag"] msgs_distinct
  by (auto simp add: regexProcessor_unfold simp del: FindString.simps)

theorem symbols_rule_flags_witness:
  "(\<exists>m. Errorf symbolsMsg [m, ''S'', ''db'', ''created-at'']
          \<in> set (regexProcessor (Tag ''db'' ''created-at'' ''S''))) \<and>
   \<not> (\<exists>m. Errorf symbolsMsg [m, ''S'', ''db'', ''created at'']
          \<in> set (regexProcessor (Tag ''db'' ''created at'' ''S'')))"
  using symbols_rule_flags [of "Tag ''db'' ''created-at'' ''S''"]
        symbols_rule_flags [of "Tag ''db'' ''created at'' ''S''"]
  by (simp add: class_eval)

text \<open>
  C3, as stated, fails: the value \<open>a-b-c\<close> has two maximal runs of illegal characters
  and draws one character-set error, for the first run.
\<close>

theorem symbols_rule_runs_counterexample:
  "illegalRuns specSymbolsClass ''a-b-c'' = 2 \<and> illegalRuns symbolsClass ''a-b-c'' = 2 \<and>
   filter (isErrorf symbolsMsg) (regexProcessor (Tag ''db'' ''a-b-c'' ''S'')) =
     [Errorf symbolsMsg [''-'', ''S'', ''db'', ''a-b-c'']]"
  by (simp add: regexProcessor_unfold class_eval illegalRuns_def isErrorf_def
        symbolsMsg_def endMsg_def)

text \<open>
  C3, amended: a value with no character outside \<open>[a-z0-9_, ]\<close> draws no
  character-set error; a value with \<open>K \<ge> 1\<close> maximal runs of such characters draws
  exactly one, which names the leftmost run, the structure, the tag name and the value.
\<close>

theorem symbols_rule_count:
  "filter (isErrorf symbolsMsg) (regexProcessor tag) =
     (if illegalRuns symbolsClass (GetValue tag) = 0 then []
      else [Errorf symbolsMsg
              [takeWhile (\<lambda>c. \<not> inClass symbolsClass c)
                 (dropWhile (inClass symbolsClass) (GetValue tag)),
               GetStructName tag, GetName tag, GetValue tag]])"
  using FindString_plus_nonempty [of symbolsClass "GetValue tag"] msgs_distinct
  by (auto simp add: regexProcessor_unfold illegalRuns_zero isErrorf_def)

theorem symbols_rule_count_witness:
  "filter (isErrorf symbolsMsg) (regexProcessor (Tag ''db'' ''a--b-c'' ''S'')) =
     [Errorf symbolsMsg [''--'', ''S'', ''db'', ''a--b-c'']] \<and>
   filter (isErrorf symbolsMsg) (regexProcessor (Tag ''db'' ''created_at'' ''S'')) = []"
  using symbols_rule_count [of "Tag ''db'' ''a--b-c'' ''S''"]
        symbols_rule_count [of "Tag ''db'' ''created_at'' ''S''"]
  by (simp add: class_eval illegalRuns_def)

text \<open>
  C6: the trailing-character rule reports a tag exactly when its value is not empty and
  its last character is outside \<open>[a-z0-9]\<close>. The empty value draws no error from the
  regular-expression processor and one from the emptiness processor, which reports
  nothing else.
\<close>

theorem end_rule_flags:
  "((\<exists>m. Errorf endMsg [m, GetStructName tag, GetName tag, GetValue tag]
           \<in> set (regexProcessor tag))
      \<longleftrightarrow> GetValue tag \<noteq> [] \<and> \<not> inClass endClass (last (GetValue tag)))
   \<and> (GetValue tag = [] \<longrightarrow>
        regexProcessor tag = [] \<and>
        emptyProcessor tag = [Errorf emptyMsg [GetStructName tag, GetName tag]])
   \<and> (GetValue tag \<noteq> [] \<longrightarrow> emptyProcessor tag = [])"
  using msgs_distinct
  by (auto simp add: regexProcessor_unfold emptyProcessor_def)

theorem end_rule_flags_witness:
  "(\<exists>m. Errorf endMsg [m, ''S'', ''db'', ''created_at_'']
          \<in> set (regexProcessor (Tag ''db'' ''created_at_'' ''S''))) \<and>
   emptyProcessor (Tag ''db'' ''created_at_'' ''S'') = [] \<and>
   regexProcessor (Tag ''db'' [] ''S'') = [] \<and>
   emptyProcessor (Tag ''db'' [] ''S'') = [Errorf emptyMsg [''S'', ''db'']]"
  using end_rule_flags [of "Tag ''db'' ''created_at_'' ''S''"]
        end_rule_flags [of "Tag ''db'' [] ''S''"]
  by (simp add: class_eval)

section \<open>The file filter\<close>

text \<open>
  What the filter computes: with no requested name it accepts the files that are not test
  files; with requested names it accepts a file exactly when being a test file and being
  requested disagree.
\<close>

lemma modelMap_keys:
  "fst ` set (modelMap models) = (\<lambda>model. Join [ToLower model, ''go''] ''.'') ` set models"
proof -
  have "fst ` set (foldl (\<lambda>m model. AList.update (Join [ToLower model, ''go''] ''.'') True m) al models)
          = fst ` set al \<union> (\<lambda>model. Join [ToLower model, ''go''] ''.'') ` set models" for al
    by (induction models arbitrary: al) (auto simp add: dom_update)
  from this [of "[]"] show ?thesis by (simp add: modelMap_def)
qed

lemma fileFilter_eq:
  "fileFilter models fName \<longleftrightarrow>
     (if models = [] then \<not> HasSuffix fName ''_test.go''
      else (\<not> HasSuffix fName ''_test.go'') =
           (ToLower fName \<in> (\<lambda>model. ToLower model @ ''.go'') ` set models))"
proof -
  have len: "length (modelMap models) > 0 \<longleftrightarrow> models \<noteq> []"
    using modelMap_keys [of models] by (cases "modelMap models") auto
  have look: "map_of (modelMap models) k \<noteq> None \<longleftrightarrow> k \<in> (\<lambda>model. ToLower model @ ''.go'') ` set models"
    for k
    using modelMap_keys [of models] by (simp add: map_of_eq_None_iff)
  show ?thesis
    unfolding fileFilter_def Let_def len look by auto
qed

text \<open>
  C7 at the input \<open>models = ["Customer"]\<close>, file \<open>other_test.go\<close>: the file is a test
  file, it was not requested, and the filter accepts it. A requested file and an
  unrequested declaration file are treated as C7 says.
\<close>

theorem fileFilter_unrequested_test_file:
  "HasSuffix ''other_test.go'' ''_test.go'' \<and>
   map_of (modelMap [''Customer'']) (ToLower ''other_test.go'') = None \<and>
   fileFilter [''Customer''] ''other_test.go'' \<and>
   fileFilter [''Customer''] ''customer.go'' \<and>
   \<not> fileFilter [''Customer''] ''other.go''"
  by code_simp

section \<open>Slices, the registry and the loop of validate\<close>

lemma append_slice_nothing:
  "len s \<le> cap s \<Longrightarrow> append_slice grow s [] h = (s, h)"
  by (simp add: append_slice_def elems_def)

lemma append_slice_elems:
  assumes "append_slice grow s xs h = (s', h')" and "len s \<le> length (arrays h (arr s))"
  shows "elems h' s' = elems h s @ xs"
  using assms
  by (auto simp add: append_slice_def elems_def Let_def split: if_splits)

lemma append_slice_frame:
  assumes "append_slice grow s xs h = (s', h')" and "arr t < fresh h"
    and "arr t \<noteq> arr s \<or> len t \<le> len s" and "len s \<le> length (arrays h (arr s))"
  shows "elems h' t = elems h t"
  using assms
  by (auto simp add: append_slice_def elems_def Let_def split: if_splits)

lemma append_slice_length:
  assumes "append_slice grow s xs h = (s', h')" and "arr t < fresh h"
    and "arr t \<noteq> arr s \<or> cap s = length (arrays h (arr s))" and "len s \<le> cap s"
  shows "length (arrays h' (arr t)) = length (arrays h (arr t))"
  using assms
  by (auto simp add: append_slice_def elems_def Let_def split: if_splits)

lemma append_slice_fresh:
  assumes "append_slice grow s xs h = (s', h')"
  shows "fresh h \<le> fresh h'"
  using assms
  by (auto simp add: append_slice_def Let_def split: if_splits)

lemma wf_entry:
  assumes "wellFormed (v, h)" and "(k, s) \<in> set (processors v)"
  shows "0 < arr s" and "arr s < fresh h" and "len s \<le> cap s"
    and "length (arrays h (arr s)) = cap s"
  using assms by (auto simp add: wellFormed_def)

lemma wf_same_array:
  assumes "wellFormed (v, h)" and "(k, s) \<in> set (processors v)" and "(k', s') \<in> set (processors v)"
    and "arr s = arr s'"
  shows "s = s'"
proof -
  have "k = k'" and "distinct (map fst (processors v))"
    using assms by (auto simp add: wellFormed_def)
  then show ?thesis
    using assms(2,3) eq_key_imp_eq_value by fastforce
qed

lemma wf_frame:
  assumes "wellFormed (v, h)" and "fresh h \<le> fresh h'"
    and "\<forall>(k, s)\<in>set (processors v). length (arrays h' (arr s)) = length (arrays h (arr s))"
  shows "wellFormed (v, h')"
  using assms by (fastforce simp add: wellFormed_def)

lemma validateTag_wf:
  assumes wf: "wellFormed (v, h)" and dc: "duplicateCheck (allowDuplicates v) t fieldsCache = (d, c)"
  shows "\<exists>h'. validateTag grow v t (h, fieldsCache, errs) =
                (case callProcessors (applicable (v, h) t) t (errs @ d) of
                   Inl p \<Rightarrow> Inl p
                 | Inr errs' \<Rightarrow> Inr (h', c, errs'))
              \<and> wellFormed (v, h')
              \<and> (\<forall>(k, s)\<in>set (processors v). elems h' s = elems h s)"
proof -
  define e1 where "e1 = (case map_of (processors v) (GetName t) of Some ps \<Rightarrow> ps | None \<Rightarrow> nilSlice)"
  have first: "(case map_of (processors v) (GetName t) of
                  Some ps \<Rightarrow> append_slice grow ps [] h | None \<Rightarrow> (nilSlice, h)) = (e1, h)"
    using wf_entry(3) [OF wf] 
    by (auto simp add: e1_def append_slice_nothing split: option.splits dest!: map_of_SomeD)
  have e1_cases: "e1 = nilSlice \<or> (GetName t, e1) \<in> set (processors v)"
    by (auto simp add: e1_def split: option.splits dest!: map_of_SomeD)
  have e1_len: "len e1 \<le> cap e1" and e1_arr: "len e1 \<le> length (arrays h (arr e1))"
    and e1_cap: "e1 = nilSlice \<or> cap e1 = length (arrays h (arr e1))"
    using e1_cases wf_entry [OF wf] by (auto simp add: nilSlice_def)
  have e1_elems: "elems h e1 = (case registry (v, h) (GetName t) of None \<Rightarrow> [] | Some ps \<Rightarrow> ps)"
    by (auto simp add: e1_def registry_def elems_def nilSlice_def split: option.splits)
  obtain e2 h2 where second:
    "(case map_of (processors v) AllTags of
        Some globalProcessors \<Rightarrow> append_slice grow e1 (elems h globalProcessors) h
      | None \<Rightarrow> (e1, h)) = (e2, h2)"
    by (cases "case map_of (processors v) AllTags of
        Some globalProcessors \<Rightarrow> append_slice grow e1 (elems h globalProcessors) h
      | None \<Rightarrow> (e1, h)") 
  have e2_elems: "elems h2 e2 = applicable (v, h) t"
  proof (cases "map_of (processors v) AllTags")
    case None
    then show ?thesis using second e1_elems by (simp add: applicable_def registry_def)
  next
    case (Some g)
    then have "append_slice grow e1 (elems h g) h = (e2, h2)" using second by simp
    from append_slice_elems [OF this e1_arr] show ?thesis
      using Some e1_elems by (simp add: applicable_def registry_def)
  qed
  have frame: "elems h2 s = elems h s \<and> length (arrays h2 (arr s)) = length (arrays h (arr s))"
    if mem: "(k, s) \<in> set (processors v)" for k s
  proof (cases "map_of (processors v) AllTags")
    case None
    then show ?thesis using second by simp
  next
    case (Some g)
    then have app: "append_slice grow e1 (elems h g) h = (e2, h2)" using second by simp
    have lt: "arr s < fresh h" and pos: "0 < arr s" using wf_entry [OF wf mem] by simp_all
    have same: "arr s \<noteq> arr e1 \<or> s = e1"
      using e1_cases pos wf_same_array [OF wf mem] by (auto simp add: nilSlice_def)
    then have a: "arr s \<noteq> arr e1 \<or> len s \<le> len e1" by auto
    have b: "arr s \<noteq> arr e1 \<or> cap e1 = length (arrays h (arr e1))"
      using same e1_cap pos by (auto simp add: nilSlice_def)
    show ?thesis
      using append_slice_frame [OF app lt a e1_arr] append_slice_length [OF app lt b e1_len]
      by simp
  qed
  have fresh: "fresh h \<le> fresh h2"
    using second append_slice_fresh [of grow e1 _ h e2 h2] by (auto split: option.splits)
  have wf2: "wellFormed (v, h2)"
    using wf_frame [OF wf fresh] frame by auto
  have dup: "(if \<not> allowDuplicates v
                   then (case checkForDuplicates t fieldsCache of (d, c) \<Rightarrow> (errs @ d, c))
                   else (errs, fieldsCache)) = (errs @ d, c)"
    using dc by (auto simp add: duplicateCheck_def split: if_splits)
  have "validateTag grow v t (h, fieldsCache, errs) =
          (case callProcessors (elems h2 e2) t (errs @ d) of
             Inl p \<Rightarrow> Inl p
           | Inr errs' \<Rightarrow> Inr (h2, c, errs'))"
    by (simp add: validateTag_def dup first second)
  then show ?thesis using e2_elems wf2 frame by auto
qed

lemma callProcessors_eq:
  "callProcessors ps t errs =
     (if None \<notin> set ps then Inr (errs @ results ps t) else nilPanic)"
proof (induction ps arbitrary: errs)
  case Nil
  then show ?case by (simp add: results_def)
next
  case (Cons p ps)
  then show ?case by (cases p) (auto simp add: results_def nilPanic_def)
qed

lemma callable_simps [simp]:
  "callable app []"
  "callable app (t # ts) \<longleftrightarrow> None \<notin> set (app t) \<and> callable app ts"
  "callable app (ts @ us) \<longleftrightarrow> callable app ts \<and> callable app us"
  by (auto simp add: callable_def)

lemma registry_frame:
  assumes "\<forall>(k, s)\<in>set (processors v). elems h' s = elems h s"
  shows "registry (v, h') = registry (v, h)"
proof
  fix k
  show "registry (v, h') k = registry (v, h) k"
    using assms by (cases "map_of (processors v) k") (auto simp add: registry_def dest!: map_of_SomeD)
qed

lemma applicable_frame:
  assumes "\<forall>(k, s)\<in>set (processors v). elems h' s = elems h s"
  shows "applicable (v, h') = applicable (v, h)"
  using registry_frame [OF assms] by (auto simp add: applicable_def fun_eq_iff)

lemma validateFields_spec:
  assumes "wellFormed (v, h)"
  shows "\<exists>h'. wellFormed (v, h') \<and> (\<forall>(k, s)\<in>set (processors v). elems h' s = elems h s) \<and>
           validateFields grow v ts (h, fieldsCache, errs) =
             (if callable (applicable (v, h)) ts
              then Inr (h', cacheAfter (allowDuplicates v) fieldsCache ts,
                        errs @ findings (allowDuplicates v) (applicable (v, h)) fieldsCache ts)
              else nilPanic)"
  using assms
proof (induction ts arbitrary: h fieldsCache errs)
  case Nil
  then show ?case by (auto simp add: cacheAfter_def)
next
  case (Cons t ts)
  obtain d c where dc: "duplicateCheck (allowDuplicates v) t fieldsCache = (d, c)"
    by (cases "duplicateCheck (allowDuplicates v) t fieldsCache")
  from validateTag_wf [OF Cons.prems dc, of grow errs] obtain h1 where
    step: "validateTag grow v t (h, fieldsCache, errs) =
             (case callProcessors (applicable (v, h) t) t (errs @ d) of
                Inl p \<Rightarrow> Inl p | Inr errs' \<Rightarrow> Inr (h1, c, errs'))"
    and wf1: "wellFormed (v, h1)"
    and frame1: "\<forall>(k, s)\<in>set (processors v). elems h1 s = elems h s"
    by blast
  show ?case
  proof (cases "None \<in> set (applicable (v, h) t)")
    case True
    then have "validateFields grow v (t # ts) (h, fieldsCache, errs) = nilPanic"
      by (simp add: step callProcessors_eq nilPanic_def)
    then show ?thesis using True Cons.prems by auto
  next
    case False
    from Cons.IH [OF wf1, of c "errs @ d @ results (applicable (v, h) t) t"] obtain h2 where
      wf2: "wellFormed (v, h2)"
      and frame2: "\<forall>(k, s)\<in>set (processors v). elems h2 s = elems h1 s"
      and rest: "validateFields grow v ts (h1, c, errs @ d @ results (applicable (v, h) t) t) =
             (if callable (applicable (v, h1)) ts
              then Inr (h2, cacheAfter (allowDuplicates v) c ts,
                        (errs @ d @ results (applicable (v, h) t) t) @
                        findings (allowDuplicates v) (applicable (v, h1)) c ts)
              else nilPanic)"
      by blast
    have app: "applicable (v, h1) = applicable (v, h)"
      by (rule applicable_frame [OF frame1])
    have frame: "\<forall>(k, s)\<in>set (processors v). elems h2 s = elems h s"
      using frame1 frame2 by fastforce
    have "validateFields grow v (t # ts) (h, fieldsCache, errs) =
            validateFields grow v ts (h1, c, errs @ d @ results (applicable (v, h) t) t)"
      using False by (simp add: step callProcessors_eq)
    then have "validateFields grow v (t # ts) (h, fieldsCache, errs) =
             (if callable (applicable (v, h)) (t # ts)
              then Inr (h2, cacheAfter (allowDuplicates v) fieldsCache (t # ts),
                        errs @ findings (allowDuplicates v) (applicable (v, h)) fieldsCache (t # ts))
              else nilPanic)"
      using False dc by (simp add: rest app cacheAfter_def)
    then show ?thesis using wf2 frame by blast
  qed
qed

lemma wfI:
  assumes "0 < fresh h" and "distinct (map fst (processors v))"
    and "\<And>k s. (k, s) \<in> set (processors v) \<Longrightarrow>
           0 < arr s \<and> arr s < fresh h \<and> len s \<le> cap s \<and> length (arrays h (arr s)) = cap s"
    and "\<And>k s k' s'. (k, s) \<in> set (processors v) \<Longrightarrow> (k', s') \<in> set (processors v) \<Longrightarrow>
           arr s = arr s' \<Longrightarrow> k = k'"
  shows "wellFormed (v, h)"
  unfolding wellFormed_def using assms by (simp add: case_prod_beta) (metis prod.collapse)

lemma wf_same_key:
  assumes "wellFormed (v, h)" and "(k, s) \<in> set (processors v)" and "(k', s') \<in> set (processors v)"
    and "arr s = arr s'"
  shows "k = k'"
  using assms by (auto simp add: wellFormed_def)

lemma set_update:
  "distinct (map fst al) \<Longrightarrow>
     set (AList.update k v al) = insert (k, v) {x \<in> set al. fst x \<noteq> k}"
  by (induction al) (auto simp add: rev_image_eqI)

lemma wf_NewValidator: "0 < fresh h \<Longrightarrow> wellFormed (NewValidator p, h)"
  by (simp add: wellFormed_def NewValidator_def)

lemma wf_AddProcessor:
  assumes "wellFormed st"
  shows "wellFormed (AddProcessor grow tag processor st)"
proof -
  obtain v h where st: "st = (v, h)" by (cases st)
  define old where "old = (case map_of (processors v) tag of None \<Rightarrow> nilSlice | Some s \<Rightarrow> s)"
  obtain s h' where app: "append_slice grow old [processor] h = (s, h')"
    by (cases "append_slice grow old [processor] h")
  have res: "AddProcessor grow tag processor st =
               (v\<lparr>processors := AList.update tag s (processors v)\<rparr>, h')"
    by (simp add: AddProcessor_def st old_def [symmetric] app)
  have wf: "wellFormed (v, h)" using assms st by simp
  have dist: "distinct (map fst (processors v))" and pos: "0 < fresh h"
    using wf by (simp_all add: wellFormed_def)
  have old_cases: "old = nilSlice \<or> (tag, old) \<in> set (processors v)"
    by (auto simp add: old_def split: option.splits dest!: map_of_SomeD)
  have old_len: "len old \<le> cap old"
    and old_arr: "old = nilSlice \<or> cap old = length (arrays h (arr old))"
    and old_lt: "arr old < fresh h"
    using old_cases wf_entry [OF wf] pos by (auto simp add: nilSlice_def)
  have fresh: "fresh h \<le> fresh h'" by (rule append_slice_fresh [OF app])
  have s_arr: "arr s = arr old \<and> old \<noteq> nilSlice \<or> arr s = fresh h"
    using app old_len by (auto simp add: append_slice_def Let_def nilSlice_def split: if_splits)
  have s_ok: "0 < arr s \<and> arr s < fresh h' \<and> len s \<le> cap s \<and> length (arrays h' (arr s)) = cap s"
    using app old_len old_arr old_lt pos old_cases wf_entry(1) [OF wf]
    by (auto simp add: append_slice_def Let_def elems_def nilSlice_def split: if_splits)
  have others: "length (arrays h' (arr s')) = length (arrays h (arr s')) \<and> arr s' \<noteq> arr s"
    if mem: "(k', s') \<in> set (processors v)" and ne: "k' \<noteq> tag" for k' s'
  proof -
    have lt: "arr s' < fresh h" using wf_entry [OF wf mem] by simp
    have diff: "old = nilSlice \<or> arr s' \<noteq> arr old"
      using old_cases wf mem ne by (auto simp add: wellFormed_def)
    then have d2: "arr s' \<noteq> arr old"
      using wf_entry(1) [OF wf mem] by (auto simp add: nilSlice_def)
    then have "arr s' \<noteq> arr old \<or> cap old = length (arrays h (arr old))" by simp
    from append_slice_length [OF app lt this old_len] show ?thesis
      using s_arr d2 lt by auto
  qed
  have set': "set (AList.update tag s (processors v)) =
                insert (tag, s) {x \<in> set (processors v). fst x \<noteq> tag}"
    by (rule set_update [OF dist])
  let ?v = "v\<lparr>processors := AList.update tag s (processors v)\<rparr>"
  have entries: "(k, x) \<in> set (processors ?v) \<longleftrightarrow>
                   k = tag \<and> x = s \<or> k \<noteq> tag \<and> (k, x) \<in> set (processors v)" for k x
    using set' by auto
  have "wellFormed (?v, h')"
  proof (rule wfI)
    show "0 < fresh h'" using pos fresh by simp
    show "distinct (map fst (processors ?v))" using dist by (simp add: distinct_update)
  next
    fix k x
    assume "(k, x) \<in> set (processors ?v)"
    then consider "x = s" | "k \<noteq> tag" "(k, x) \<in> set (processors v)"
      using entries by blast
    then show "0 < arr x \<and> arr x < fresh h' \<and> len x \<le> cap x \<and>
               length (arrays h' (arr x)) = cap x"
    proof cases
      case 1
      then show ?thesis using s_ok by simp
    next
      case 2
      then show ?thesis using others [OF 2(2,1)] wf_entry [OF wf 2(2)] fresh by simp
    qed
  next
    fix k x k' x'
    assume "(k, x) \<in> set (processors ?v)" and "(k', x') \<in> set (processors ?v)"
      and eq: "arr x = arr x'"
    then have a: "k = tag \<and> x = s \<or> k \<noteq> tag \<and> (k, x) \<in> set (processors v)"
      and b: "k' = tag \<and> x' = s \<or> k' \<noteq> tag \<and> (k', x') \<in> set (processors v)"
      using entries by blast+
    show "k = k'"
      using a b eq others wf_same_key [OF wf] by metis
  qed
  then show ?thesis by (simp add: res)
qed

lemma cacheAfter_append:
  "cacheAfter a c (xs @ ys) = cacheAfter a (cacheAfter a c xs) ys"
  by (simp add: cacheAfter_def)

lemma findings_append:
  "findings a app c (xs @ ys) = findings a app c xs @ findings a app (cacheAfter a c xs) ys"
  by (induction xs arbitrary: c) (simp_all add: cacheAfter_def)

lemma validateStructs_spec:
  assumes "wellFormed (v, h)"
  shows "\<exists>h'. wellFormed (v, h') \<and> (\<forall>(k, s)\<in>set (processors v). elems h' s = elems h s) \<and>
           validateStructs grow v gs (h, fieldsCache, errs) =
             (if callable (applicable (v, h)) (concat (map snd gs))
              then Inr (h', cacheAfter (allowDuplicates v) fieldsCache (concat (map snd gs)),
                        errs @ findings (allowDuplicates v) (applicable (v, h)) fieldsCache
                                 (concat (map snd gs)))
              else nilPanic)"
  using assms
proof (induction gs arbitrary: h fieldsCache errs)
  case Nil
  then show ?case by (auto simp add: cacheAfter_def)
next
  case (Cons g gs)
  obtain k fs where g: "g = (k, fs)" by (cases g)
  let ?a = "allowDuplicates v"
  from validateFields_spec [OF Cons.prems, of grow fs fieldsCache errs] obtain h1 where
    wf1: "wellFormed (v, h1)"
    and frame1: "\<forall>(k, s)\<in>set (processors v). elems h1 s = elems h s"
    and step: "validateFields grow v fs (h, fieldsCache, errs) =
             (if callable (applicable (v, h)) fs
              then Inr (h1, cacheAfter ?a fieldsCache fs,
                        errs @ findings ?a (applicable (v, h)) fieldsCache fs)
              else nilPanic)"
    by blast
  show ?case
  proof (cases "callable (applicable (v, h)) fs")
    case False
    have "validateFields grow v fs (h, fieldsCache, errs) = nilPanic"
      by (simp only: step False if_False)
    then have "validateStructs grow v (g # gs) (h, fieldsCache, errs) = nilPanic"
      by (simp add: g nilPanic_def)
    then show ?thesis using False Cons.prems g by auto
  next
    case True
    let ?c = "cacheAfter ?a fieldsCache fs"
    let ?e = "errs @ findings ?a (applicable (v, h)) fieldsCache fs"
    from Cons.IH [OF wf1, of ?c ?e] obtain h2 where
      wf2: "wellFormed (v, h2)"
      and frame2: "\<forall>(k, s)\<in>set (processors v). elems h2 s = elems h1 s"
      and rest: "validateStructs grow v gs (h1, ?c, ?e) =
             (if callable (applicable (v, h1)) (concat (map snd gs))
              then Inr (h2, cacheAfter ?a ?c (concat (map snd gs)),
                        ?e @ findings ?a (applicable (v, h1)) ?c (concat (map snd gs)))
              else nilPanic)"
      by blast
    have app: "applicable (v, h1) = applicable (v, h)"
      by (rule applicable_frame [OF frame1])
    have frame: "\<forall>(k, s)\<in>set (processors v). elems h2 s = elems h s"
      using frame1 frame2 by fastforce
    have "validateStructs grow v (g # gs) (h, fieldsCache, errs) =
            validateStructs grow v gs (h1, ?c, ?e)"
      using True by (simp add: g step)
    then have "validateStructs grow v (g # gs) (h, fieldsCache, errs) =
             (if callable (applicable (v, h)) (concat (map snd (g # gs)))
              then Inr (h2, cacheAfter ?a fieldsCache (concat (map snd (g # gs))),
                        errs @ findings ?a (applicable (v, h)) fieldsCache
                                 (concat (map snd (g # gs))))
              else nilPanic)"
      using True by (simp add: rest app g cacheAfter_append findings_append)
    then show ?thesis using wf2 frame by blast
  qed
qed

lemma validate_spec:
  assumes "wellFormed (v, h)"
  shows "\<exists>h'. wellFormed (v, h') \<and> registry (v, h') = registry (v, h) \<and>
           validate grow (v, h) =
             (if tags v = [] then Inr ((v, h), [New ''No tags found''])
              else if callable (applicable (v, h)) (concat (map snd (tags v)))
              then Inr ((v, h'), findings (allowDuplicates v) (applicable (v, h)) []
                                   (concat (map snd (tags v))))
              else nilPanic)"
proof (cases "tags v = []")
  case True
  then show ?thesis using assms by (auto simp add: validate_def)
next
  case False
  from validateStructs_spec [OF assms, of grow "tags v" "[]" "[]"] obtain h' where
    wf': "wellFormed (v, h')"
    and frame: "\<forall>(k, s)\<in>set (processors v). elems h' s = elems h s"
    and loop: "validateStructs grow v (tags v) (h, [], []) =
             (if callable (applicable (v, h)) (concat (map snd (tags v)))
              then Inr (h', cacheAfter (allowDuplicates v) [] (concat (map snd (tags v))),
                        [] @ findings (allowDuplicates v) (applicable (v, h)) []
                                 (concat (map snd (tags v))))
              else nilPanic)"
    by blast
  have "validate grow (v, h) =
             (if callable (applicable (v, h)) (concat (map snd (tags v)))
              then Inr ((v, h'), findings (allowDuplicates v) (applicable (v, h)) []
                                   (concat (map snd (tags v))))
              else nilPanic)"
    using False by (simp add: validate_def loop nilPanic_def)
  then show ?thesis using False wf' registry_frame [OF frame] by auto
qed

lemma Run_eq:
  "Run e grow models (v, h) =
     (case getPackages e (path v) models of
        Inl p \<Rightarrow> Inl p
      | Inr pkgs \<Rightarrow>
          if processors v = [] then Inr ((v\<lparr>packages := pkgs\<rparr>, h), [New noProcessorsMsg])
          else (case getTags e (map fst (processors v)) pkgs of
                  Inl p \<Rightarrow> Inl p
                | Inr ts \<Rightarrow> validate grow (v\<lparr>packages := pkgs, tags := ts\<rparr>, h)))"
  by (simp add: Run_def Let_def split: sum.splits)

lemma wf_fields [simp]: "wellFormed (v\<lparr>packages := p, tags := ts\<rparr>, h) = wellFormed (v, h)"
  by (simp add: wellFormed_def)

lemma registry_fields [simp]:
  "registry (v\<lparr>packages := p, tags := ts\<rparr>, h) = registry (v, h)"
  "registry (v\<lparr>packages := p\<rparr>, h) = registry (v, h)"
  by (simp_all add: registry_def fun_eq_iff)

lemma applicable_fields [simp]:
  "applicable (v\<lparr>packages := p, tags := ts\<rparr>, h) = applicable (v, h)"
  by (simp add: applicable_def fun_eq_iff)

lemma Run_spec:
  assumes wf: "wellFormed (v, h)" and scan: "getPackages e (path v) models = Inr pkgs"
    and reg: "processors v \<noteq> []"
    and rcv: "receive e (dbRegex (map fst (processors v))) pkgs = Inr ts"
  shows "\<exists>h'. wellFormed (v, h') \<and> registry (v, h') = registry (v, h) \<and>
           Run e grow models (v, h) =
             (if ts = []
              then Inr ((v\<lparr>packages := pkgs, tags := []\<rparr>, h), [New ''No tags found''])
              else if callable (applicable (v, h)) (concat (map snd (foldl appendTag [] ts)))
              then Inr ((v\<lparr>packages := pkgs, tags := foldl appendTag [] ts\<rparr>, h'),
                        findings (allowDuplicates v) (applicable (v, h)) []
                          (concat (map snd (foldl appendTag [] ts))))
              else nilPanic)"
proof -
  let ?v = "v\<lparr>packages := pkgs, tags := foldl appendTag [] ts\<rparr>"
  have run: "Run e grow models (v, h) = validate grow (?v, h)"
    using scan reg rcv by (simp add: Run_eq getTags_def)
  have wf': "wellFormed (?v, h)" using wf by simp
  have empty: "foldl appendTag [] ts = [] \<longleftrightarrow> ts = []"
    by (induction ts rule: rev_induct) (simp_all add: appendTag_def)
  from validate_spec [OF wf', of grow] obtain h' where
    "wellFormed (?v, h')" and "registry (?v, h') = registry (?v, h)"
    and "validate grow (?v, h) =
             (if tags ?v = [] then Inr ((?v, h), [New ''No tags found''])
              else if callable (applicable (?v, h)) (concat (map snd (tags ?v)))
              then Inr ((?v, h'), findings (allowDuplicates ?v) (applicable (?v, h)) []
                                   (concat (map snd (tags ?v))))
              else nilPanic)"
    by blast
  then show ?thesis using run empty by (auto simp add: )
qed

lemma wf_AddDefaultProcessors:
  assumes "wellFormed st"
  shows "wellFormed (AddDefaultProcessors grow tagStrs st)"
proof -
  have "wellFormed (foldl (\<lambda>st tagStr.
               AddProcessor grow tagStr (Some emptyProcessor)
                 (AddProcessor grow tagStr (Some regexProcessor) st)) st ts)" for ts
    using assms by (induction ts arbitrary: st) (simp_all add: wf_AddProcessor)
  then show ?thesis by (simp add: AddDefaultProcessors_def Let_def)
qed

lemma appendTag_mset:
  "mset (concat (map snd (appendTag al t))) = mset (concat (map snd al)) + {#t#}"
  unfolding appendTag_def by (induction al) auto

lemma getTags_mset:
  "mset (concat (map snd (foldl appendTag al ts))) = mset (concat (map snd al)) + mset ts"
  by (induction ts arbitrary: al) (simp_all add: appendTag_mset)

lemma results_empty:
  "results ps t = [] \<Longrightarrow> Some processor \<in> set ps \<Longrightarrow> processor t = []"
  by (fastforce simp add: results_def)

lemma findings_empty_results:
  "findings a app c ts = [] \<Longrightarrow> t \<in> set ts \<Longrightarrow> results (app t) t = []"
  by (induction ts arbitrary: c) auto

lemma seen_cacheAfter:
  "map_of (cacheAfter False c ts) k \<noteq> None \<longleftrightarrow> map_of c k \<noteq> None \<or> k \<in> cacheKey ` set ts"
  by (induction ts arbitrary: c)
     (auto simp add: cacheAfter_def duplicateCheck_def checkForDuplicates_def update_conv')

lemma duplicateCheck_first:
  "fst (duplicateCheck False t c) =
     (if map_of c (cacheKey t) \<noteq> None
      then [Errorf duplicateMsg [GetValue t, GetStructName t, GetName t]] else [])"
  by (simp add: duplicateCheck_def checkForDuplicates_def)

lemma findings_empty_distinct:
  "findings False app c ts = [] \<Longrightarrow>
     distinct (map cacheKey ts) \<and> (\<forall>t\<in>set ts. map_of c (cacheKey t) = None)"
proof (induction ts arbitrary: c)
  case Nil
  then show ?case by simp
next
  case (Cons t ts)
  then have first: "map_of c (cacheKey t) = None"
    and rest: "findings False app (snd (duplicateCheck False t c)) ts = []"
    by (auto simp add: duplicateCheck_first split: if_splits)
  have c': "snd (duplicateCheck False t c) = AList.update (cacheKey t) True c"
    by (simp add: duplicateCheck_def checkForDuplicates_def)
  from Cons.IH [OF rest] have "distinct (map cacheKey ts)"
    and "\<forall>u\<in>set ts. map_of (AList.update (cacheKey t) True c) (cacheKey u) = None"
    by (simp_all add: c')
  then show ?case using first by (auto simp add: update_conv' split: if_splits)
qed

lemma findings_collision:
  assumes "t1 \<in> set pre" and "cacheKey t1 = cacheKey t2"
  shows "Errorf duplicateMsg [GetValue t2, GetStructName t2, GetName t2]
           \<in> set (findings False app c (pre @ t2 # post))"
proof -
  have "map_of (cacheAfter False c pre) (cacheKey t2) \<noteq> None"
    using assms seen_cacheAfter [of c pre "cacheKey t2"] by (metis imageI)
  then show ?thesis
    by (simp add: findings_append duplicateCheck_first)
qed

section \<open>Example states\<close>

lemma wellFormed_defaultState: "wellFormed (defaultState tagStrs)"
  by (simp add: defaultState_def wf_AddDefaultProcessors wf_NewValidator heap0_def)


lemma defaultState_db:
  "defaultState [''db''] =
     (\<lparr>packages = [], tags = [], processors = [(''db'', \<lparr>arr = 2, len = 2, cap = 2\<rparr>)],
        path = ''models'', allowDuplicates = False\<rparr>,
      \<lparr>arrays = (\<lambda>a. [])(1 := [Some regexProcessor],
                             2 := [Some regexProcessor, Some emptyProcessor]),
        fresh = 3\<rparr>)"
  by (simp add: defaultState_def AddDefaultProcessors_def AddProcessor_def append_slice_def
        elems_def nilSlice_def NewValidator_def heap0_def doubling_def numeral_2_eq_2)

lemma getPackages_exampleEnv:
  "getPackages (exampleEnv (p # ps) ts) folder ms = Inr (p # ps)"
  by (simp add: getPackages_def exampleEnv_def)

section \<open>Run: configuration error, scan panic, no tags found\<close>

lemma scanPath_receive [simp]: "scanPath (e\<lparr>receive := r\<rparr>) folder = scanPath e folder"
  by (simp add: scanPath_def)

lemma getPackages_Inr:
  "getPackages e folder models = Inr pkgs \<longleftrightarrow>
     ParseDir e (scanPath e folder) (fileFilter models) = (pkgs, None) \<and> pkgs \<noteq> []"
proof (cases "ParseDir e (scanPath e folder) (fileFilter models)")
  case (Pair ps err)
  then show ?thesis
    by (cases err) (auto simp add: getPackages_def Let_def)
qed

lemma Run_parse_error:
  "ParseDir e (scanPath e (path v)) (fileFilter models) = (pkgs, Some er) \<Longrightarrow>
     Run e grow models (v, h) = Inl (PanicError er)"
  by (simp add: Run_eq getPackages_def)

lemma Run_no_package:
  "ParseDir e (scanPath e (path v)) (fileFilter models) = ([], None) \<Longrightarrow>
     Run e grow models (v, h) =
       Inl (PanicError (Errorf ''No structs found at %v'' [scanPath e (path v)]))"
  by (simp add: Run_eq getPackages_def)

lemma Run_extraction_cases:
  assumes "wellFormed (v, h)" and "processors v \<noteq> []"
    and "getPackages e (path v) models = Inr pkgs"
    and "receive e (dbRegex (map fst (processors v))) pkgs = Inr ts"
  shows "(ts = [] \<longrightarrow>
            Run e grow models (v, h) =
              Inr ((v\<lparr>packages := pkgs, tags := []\<rparr>, h), [New ''No tags found''])) \<and>
         (\<forall>st'. Run e grow models (v, h) = Inr (st', []) \<longrightarrow>
            ts \<noteq> [] \<and>
            (\<forall>t\<in>set ts. \<forall>processor. Some processor \<in> set (applicable (v, h) t) \<longrightarrow> processor t = []) \<and>
            (\<not> allowDuplicates v \<longrightarrow> distinct (map cacheKey ts)))"
proof -
  let ?ts = "concat (map snd (foldl appendTag [] ts))"
  let ?f = "findings (allowDuplicates v) (applicable (v, h)) [] ?ts"
  from Run_spec [OF assms(1,3,2,4), of grow] obtain h2 where
    run: "Run e grow models (v, h) =
             (if ts = []
              then Inr ((v\<lparr>packages := pkgs, tags := []\<rparr>, h), [New ''No tags found''])
              else if callable (applicable (v, h)) ?ts
              then Inr ((v\<lparr>packages := pkgs, tags := foldl appendTag [] ts\<rparr>, h2), ?f)
              else nilPanic)"
    by blast
  have perm: "mset ?ts = mset ts"
    using getTags_mset [of "[]" ts] by simp
  then have same: "set ?ts = set ts" by (rule mset_eq_setD)
  have second: "ts \<noteq> [] \<and>
            (\<forall>t\<in>set ts. \<forall>processor. Some processor \<in> set (applicable (v, h) t) \<longrightarrow> processor t = []) \<and>
            (\<not> allowDuplicates v \<longrightarrow> distinct (map cacheKey ts))"
    if ret: "Run e grow models (v, h) = Inr (st', [])" for st'
  proof -
    have ne: "ts \<noteq> []" and empty: "?f = []"
      using ret run by (auto simp add: nilPanic_def split: if_splits)
    have procs: "processor t = []" if "t \<in> set ts" and "Some processor \<in> set (applicable (v, h) t)"
      for t processor
      using findings_empty_results [OF empty, of t] results_empty that same by blast
    have "distinct (map cacheKey ts)" if "\<not> allowDuplicates v"
    proof -
      have "distinct (map cacheKey ?ts)"
        using findings_empty_distinct [of "applicable (v, h)" "[]" ?ts] empty that by simp
      moreover have "mset (map cacheKey ?ts) = mset (map cacheKey ts)"
        using perm by (metis mset_map)
      ultimately show ?thesis by (metis mset_eq_imp_distinct_iff)
    qed
    then show ?thesis using ne procs by blast
  qed
  show ?thesis using run second by simp
qed

text \<open>
  C5, as stated, fails: with an empty registry and a scan that finds no package, Run does
  not return the configuration error; it panics in getPackages, which runs first.
\<close>

theorem Run_no_processors_counterexample:
  "processors (NewValidator ''models'' :: unit Validator) = [] \<and>
   map_sum id snd (Run (exampleEnv [] []) doubling [] (NewValidator ''models'', heap0)) =
     Inl (PanicError (Errorf ''No structs found at %v'' [''/go/src/models'']))"
  by code_simp

text \<open>
  C5, amended: when the registry is empty and the scan of the path succeeds (ParseDir
  reports no error and at least one package), Run returns the configuration error as the
  only element of its result, the store is as before, and the result does not depend on
  what extraction would deliver. When the scan reports an error, with or without
  packages, Run panics with that error, and when it reports no error and no package, Run
  panics with \<open>No structs found at <path>\<close>; both whatever the registry holds.
\<close>

theorem Run_no_processors:
  "(\<forall>pkgs. processors v = [] \<and>
           ParseDir e (scanPath e (path v)) (fileFilter models) = (pkgs, None) \<and> pkgs \<noteq> [] \<longrightarrow>
      Run e grow models (v, h) = Inr ((v\<lparr>packages := pkgs\<rparr>, h), [New noProcessorsMsg]) \<and>
      Run (e\<lparr>receive := r\<rparr>) grow models (v, h) = Run e grow models (v, h)) \<and>
   (\<forall>pkgs er. ParseDir e (scanPath e (path v)) (fileFilter models) = (pkgs, Some er) \<longrightarrow>
      Run e grow models (v, h) = Inl (PanicError er)) \<and>
   (ParseDir e (scanPath e (path v)) (fileFilter models) = ([], None) \<longrightarrow>
      Run e grow models (v, h) =
        Inl (PanicError (Errorf ''No structs found at %v'' [scanPath e (path v)])))"
proof -
  have "Run e grow models (v, h) = Inr ((v\<lparr>packages := pkgs\<rparr>, h), [New noProcessorsMsg]) \<and>
        Run (e\<lparr>receive := r\<rparr>) grow models (v, h) = Run e grow models (v, h)"
    if "processors v = []"
      and "ParseDir e (scanPath e (path v)) (fileFilter models) = (pkgs, None)" and "pkgs \<noteq> []"
    for pkgs
  proof -
    have "getPackages e (path v) models = Inr pkgs"
      and "getPackages (e\<lparr>receive := r\<rparr>) (path v) models = Inr pkgs"
      using that by (simp_all add: getPackages_Inr)
    then show ?thesis using that(1) by (simp add: Run_eq)
  qed
  then show ?thesis using Run_parse_error Run_no_package by blast
qed

theorem Run_no_processors_witness:
  "Run (exampleEnv examplePkgs []) doubling [] (NewValidator ''models'', heap0) =
     Inr ((NewValidator ''models'' \<lparr>packages := examplePkgs\<rparr>, heap0), [New noProcessorsMsg]) \<and>
   Run (exampleEnv examplePkgs [] \<lparr>ParseDir := \<lambda>p f. (examplePkgs, Some (New ''parse error''))\<rparr>)
       doubling [] (NewValidator ''models'' :: unit Validator, heap0) =
     Inl (PanicError (New ''parse error'')) \<and>
   Run (exampleEnv [] []) doubling [] (NewValidator ''models'' :: unit Validator, heap0) =
     Inl (PanicError (Errorf ''No structs found at %v'' [''/go/src/models'']))"
proof -
  let ?v = "NewValidator ''models'' :: unit Validator"
  let ?bad = "exampleEnv examplePkgs [] \<lparr>ParseDir := \<lambda>p f. (examplePkgs, Some (New ''parse error''))\<rparr>"
  have reg: "processors ?v = []"
    by (simp add: NewValidator_def)
  have ok: "ParseDir (exampleEnv examplePkgs []) (scanPath (exampleEnv examplePkgs []) (path ?v))
              (fileFilter []) = (examplePkgs, None) \<and> examplePkgs \<noteq> []"
    by (simp add: exampleEnv_def examplePkgs_def)
  have bad: "ParseDir ?bad (scanPath ?bad (path ?v)) (fileFilter []) =
               (examplePkgs, Some (New ''parse error''))"
    by (simp add: exampleEnv_def)
  have none: "ParseDir (exampleEnv [] []) (scanPath (exampleEnv [] []) (path ?v)) (fileFilter []) =
               ([], None)"
    by (simp add: exampleEnv_def)
  have p: "scanPath (exampleEnv [] []) (path ?v) = ''/go/src/models''"
    by (simp add: scanPath_def exampleEnv_def NewValidator_def)
  show ?thesis
    using Run_no_processors [of ?v "exampleEnv examplePkgs []" "[]" doubling heap0] reg ok
          Run_no_processors [of ?v ?bad "[]" doubling heap0] bad
          Run_no_processors [of ?v "exampleEnv [] []" "[]" doubling heap0] none p
    by simp
qed

text \<open>
  C10: Run scans before it looks at the registry. With an empty registry and a scan that
  yields no package, Run panics, with the parse error if there is one and with
  \<open>No structs found at <path>\<close> otherwise; it does not return the configuration error.
\<close>

theorem Run_scan_panics:
  assumes "processors v = []"
    and "ParseDir e (scanPath e (path v)) (fileFilter models) = ([], err)"
  shows "Run e grow models (v, h) =
           Inl (PanicError (case err of
                              Some er \<Rightarrow> er
                            | None \<Rightarrow> Errorf ''No structs found at %v'' [scanPath e (path v)]))"
  using assms by (simp add: Run_eq getPackages_def split: option.splits)

theorem Run_scan_panics_witness:
  "Run (exampleEnv [] []) doubling [] (NewValidator ''models'' :: unit Validator, heap0) =
     Inl (PanicError (Errorf ''No structs found at %v'' [''/go/src/models'']))"
proof -
  have "processors (NewValidator ''models'' :: unit Validator) = []"
    by (simp add: NewValidator_def)
  moreover have "ParseDir (exampleEnv [] []) (scanPath (exampleEnv [] []) (path (NewValidator ''models'' :: unit Validator)))
                   (fileFilter []) = ([], None)"
    by (simp add: exampleEnv_def)
  ultimately show ?thesis
    using Run_scan_panics [of "NewValidator ''models''" "exampleEnv [] []" "[]" None doubling heap0]
    by (simp add: scanPath_def exampleEnv_def NewValidator_def)
qed

text \<open>
  C4, as stated, fails: with rules registered and a source set that holds no package,
  zero tags are extracted and Run does not return one error; it panics in getPackages.
\<close>

theorem Run_no_tags_found_counterexample:
  "processors (fst (defaultState [''db''])) \<noteq> [] \<and>
   map_sum id snd (Run (exampleEnv [] []) doubling [] (defaultState [''db''])) =
     Inl (PanicError (Errorf ''No structs found at %v'' [''/go/src/models'']))"
  by code_simp

text \<open>
  C4, amended: for a run with rules registered in a well-formed registry (as the
  registration functions build it). When the scan succeeds and extraction delivers no
  tag, Run returns exactly the error \<open>No tags found\<close>. When the scan reports an error,
  or no error and no package, Run panics and returns no list. Run returns the empty list
  only when the scan succeeded, extraction delivered at least one tag, every processor
  applicable to a tag returned no error on it and, when duplicates are checked, no two
  tags had the same cache key.
\<close>

theorem Run_no_tags_found:
  assumes "wellFormed (v, h)" and "processors v \<noteq> []"
  shows "(\<forall>pkgs. getPackages e (path v) models = Inr pkgs \<and>
                receive e (dbRegex (map fst (processors v))) pkgs = Inr [] \<longrightarrow>
            Run e grow models (v, h) =
              Inr ((v\<lparr>packages := pkgs, tags := []\<rparr>, h), [New ''No tags found''])) \<and>
         (\<forall>pkgs er. ParseDir e (scanPath e (path v)) (fileFilter models) = (pkgs, Some er) \<longrightarrow>
            Run e grow models (v, h) = Inl (PanicError er)) \<and>
         (ParseDir e (scanPath e (path v)) (fileFilter models) = ([], None) \<longrightarrow>
            Run e grow models (v, h) =
              Inl (PanicError (Errorf ''No structs found at %v'' [scanPath e (path v)]))) \<and>
         (\<forall>st'. Run e grow models (v, h) = Inr (st', []) \<longrightarrow>
            (\<exists>pkgs ts. getPackages e (path v) models = Inr pkgs \<and>
               receive e (dbRegex (map fst (processors v))) pkgs = Inr ts \<and> ts \<noteq> [] \<and>
               (\<forall>t\<in>set ts. \<forall>processor.
                  Some processor \<in> set (applicable (v, h) t) \<longrightarrow> processor t = []) \<and>
               (\<not> allowDuplicates v \<longrightarrow> distinct (map cacheKey ts))))"
proof -
  have first: "Run e grow models (v, h) =
              Inr ((v\<lparr>packages := pkgs, tags := []\<rparr>, h), [New ''No tags found''])"
    if "getPackages e (path v) models = Inr pkgs"
      and "receive e (dbRegex (map fst (processors v))) pkgs = Inr []" for pkgs
    using Run_extraction_cases [OF assms that, of grow] by simp
  have last: "\<exists>pkgs ts. getPackages e (path v) models = Inr pkgs \<and>
               receive e (dbRegex (map fst (processors v))) pkgs = Inr ts \<and> ts \<noteq> [] \<and>
               (\<forall>t\<in>set ts. \<forall>processor.
                  Some processor \<in> set (applicable (v, h) t) \<longrightarrow> processor t = []) \<and>
               (\<not> allowDuplicates v \<longrightarrow> distinct (map cacheKey ts))"
    if ret: "Run e grow models (v, h) = Inr (st', [])" for st'
  proof (cases "getPackages e (path v) models")
    case (Inl p)
    then show ?thesis using ret by (simp add: Run_eq)
  next
    case scan: (Inr pkgs)
    show ?thesis
    proof (cases "receive e (dbRegex (map fst (processors v))) pkgs")
      case (Inl p)
      then show ?thesis using ret scan assms(2) by (simp add: Run_eq getTags_def)
    next
      case rcv: (Inr ts)
      from Run_extraction_cases [OF assms scan rcv, of grow] ret scan rcv
      show ?thesis by blast
    qed
  qed
  show ?thesis
    using first last Run_parse_error [of e v models _ _ grow h] Run_no_package [of e v models grow h]
    by blast
qed

theorem Run_no_tags_found_witness:
  "wellFormed (defaultState [''db'']) \<and>
   map_sum id snd (Run (exampleEnv examplePkgs []) doubling [] (defaultState [''db''])) =
     Inr [New ''No tags found''] \<and>
   map_sum id snd (Run (exampleEnv examplePkgs [Tag ''db'' ''created_at'' ''Customer'']) doubling []
                     (defaultState [''db''])) = Inr [] \<and>
   regexProcessor (Tag ''db'' ''created_at'' ''Customer'') = [] \<and>
   emptyProcessor (Tag ''db'' ''created_at'' ''Customer'') = []"
proof -
  let ?t = "Tag ''db'' ''created_at'' ''Customer''"
  obtain v h where st: "defaultState [''db''] = (v, h)" by (cases "defaultState [''db'']")
  have wf: "wellFormed (v, h)" using wellFormed_defaultState [of "[''db'']"] st by simp
  have "processors (fst (defaultState [''db''])) \<noteq> []" by code_simp
  then have reg: "processors v \<noteq> []" using st by simp
  have scan: "getPackages (exampleEnv examplePkgs ts) (path v) [] = Inr examplePkgs" for ts
    by (simp add: examplePkgs_def getPackages_exampleEnv)
  have rcv: "receive (exampleEnv examplePkgs ts) (dbRegex (map fst (processors v))) examplePkgs = Inr ts" for ts
    by (simp add: exampleEnv_def)
  have "map_sum id snd (Run (exampleEnv examplePkgs [?t]) doubling [] (defaultState [''db''])) = Inr []"
    by code_simp
  then obtain st' where ret: "Run (exampleEnv examplePkgs [?t]) doubling [] (v, h) = Inr (st', [])"
    unfolding st by (cases "Run (exampleEnv examplePkgs [?t]) doubling [] (v, h)") auto
  have "applicable (defaultState [''db'']) ?t = [Some regexProcessor, Some emptyProcessor]"
    by (simp add: defaultState_db applicable_def registry_def elems_def AllTags_def)
  then have app: "applicable (v, h) ?t = [Some regexProcessor, Some emptyProcessor]"
    using st by simp
  from Run_no_tags_found [OF wf reg, of "exampleEnv examplePkgs []" "[]" doubling] scan rcv
  have first: "Run (exampleEnv examplePkgs []) doubling [] (v, h) =
                 Inr ((v\<lparr>packages := examplePkgs, tags := []\<rparr>, h), [New ''No tags found''])"
    by blast
  from Run_no_tags_found [OF wf reg, of "exampleEnv examplePkgs [?t]" "[]" doubling] ret
  obtain ts where "receive (exampleEnv examplePkgs [?t]) (dbRegex (map fst (processors v))) examplePkgs
                     = Inr ts"
    and all: "\<forall>t\<in>set ts. \<forall>processor. Some processor \<in> set (applicable (v, h) t) \<longrightarrow> processor t = []"
    using scan [of "[?t]"] by auto
  then have "ts = [?t]" using rcv [of "[?t]"] by simp
  with all have "\<forall>t\<in>set [?t]. \<forall>processor. Some processor \<in> set (applicable (v, h) t) \<longrightarrow> processor t = []"
    by simp
  then have "regexProcessor ?t = []" and "emptyProcessor ?t = []"
    using app by simp_all
  then show ?thesis using first ret st wellFormed_defaultState [of "[''db'']"] by simp
qed

section \<open>The registry is not changed by a run\<close>




section \<open>Duplicate detection\<close>

text \<open>
  The duplicate check reports a tag exactly when its cache key was produced by an earlier
  tag of the run. The key determines the triple when neither the structure name nor the
  tag name contains a dot, and then a first occurrence is never reported; with
  allowDuplicates nothing is reported.
\<close>

lemma dot_split:
  assumes "CHR ''.'' \<notin> set a" and "CHR ''.'' \<notin> set a'"
    and "a @ CHR ''.'' # r = a' @ CHR ''.'' # r'"
  shows "a = a' \<and> r = r'"
  using assms
proof (induction a arbitrary: a')
  case Nil
  then show ?case by (cases a') auto
next
  case (Cons x a)
  then show ?case by (cases a') auto
qed

lemma cacheKey_injective:
  assumes "CHR ''.'' \<notin> set (GetStructName t1) \<union> set (GetName t1)"
    and "CHR ''.'' \<notin> set (GetStructName t2) \<union> set (GetName t2)"
    and "cacheKey t1 = cacheKey t2"
  shows "t1 = t2"
proof -
  have eq: "GetStructName t1 @ CHR ''.'' # (GetName t1 @ CHR ''.'' # GetValue t1)
          = GetStructName t2 @ CHR ''.'' # (GetName t2 @ CHR ''.'' # GetValue t2)"
    using assms(3) by (simp add: cacheKey_def)
  from dot_split [OF _ _ eq] assms(1,2)
  have s: "GetStructName t1 = GetStructName t2"
    and r: "GetName t1 @ CHR ''.'' # GetValue t1 = GetName t2 @ CHR ''.'' # GetValue t2"
    by auto
  from dot_split [OF _ _ r] assms(1,2)
  have "GetName t1 = GetName t2" and "GetValue t1 = GetValue t2" by auto
  then show ?thesis using s by (simp add: Tag.expand)
qed

lemma duplicate_by_key:
  "fst (duplicateCheck False t (cacheAfter False [] pre)) =
     (if cacheKey t \<in> cacheKey ` set pre
      then [Errorf duplicateMsg [GetValue t, GetStructName t, GetName t]] else [])"
  using seen_cacheAfter [of "[]" pre "cacheKey t"] by (simp add: duplicateCheck_first)

lemma first_occurrence_without_dots:
  assumes "\<forall>u\<in>set (t # pre). CHR ''.'' \<notin> set (GetStructName u) \<union> set (GetName u)"
    and "t \<notin> set pre"
  shows "fst (duplicateCheck False t (cacheAfter False [] pre)) = []"
proof -
  have "cacheKey t \<notin> cacheKey ` set pre"
  proof
    assume "cacheKey t \<in> cacheKey ` set pre"
    then obtain u where "u \<in> set pre" and "cacheKey t = cacheKey u" by auto
    then have "t = u" using assms(1) cacheKey_injective [of t u] by auto
    then show False using \<open>u \<in> set pre\<close> assms(2) by simp
  qed
  then show ?thesis by (simp add: duplicate_by_key)
qed

lemma findings_allowDuplicates:
  "findings True app c ts = concat (map (\<lambda>t. results (app t) t) ts)"
  by (induction ts arbitrary: c) (simp_all add: duplicateCheck_def)

text \<open>
  C9: the duplicate cache is keyed by the dot-joined string. In a run that checks
  duplicates, a tag whose key equals the key of a tag processed earlier is reported as a
  duplicate, whether or not the two tags are the same triple. The triples
  \<open>(a.b, c, d)\<close> and \<open>(a, b.c, d)\<close> differ and have the same key.
\<close>

theorem validate_key_collision:
  assumes "wellFormed (v, h)" and "\<not> allowDuplicates v"
    and "validate grow (v, h) = Inr (st', errs)"
    and "concat (map snd (tags v)) = pre @ t2 # post"
    and "t1 \<in> set pre" and "cacheKey t1 = cacheKey t2"
  shows "Errorf duplicateMsg [GetValue t2, GetStructName t2, GetName t2] \<in> set errs"
proof -
  from validate_spec [OF assms(1), of grow] obtain h' where
    "validate grow (v, h) =
             (if tags v = [] then Inr ((v, h), [New ''No tags found''])
              else if callable (applicable (v, h)) (concat (map snd (tags v)))
              then Inr ((v, h'), findings (allowDuplicates v) (applicable (v, h)) []
                                   (concat (map snd (tags v))))
              else nilPanic)"
    by blast
  moreover have "tags v \<noteq> []" using assms(4) by auto
  ultimately have "errs = findings False (applicable (v, h)) [] (pre @ t2 # post)"
    using assms(2,3,4) by (auto simp add: nilPanic_def split: if_splits)
  then show ?thesis using findings_collision [OF assms(5,6)] by simp
qed

theorem validate_key_collision_witness:
  "Tag ''c'' ''d'' ''a.b'' \<noteq> Tag ''b.c'' ''d'' ''a'' \<and>
   cacheKey (Tag ''c'' ''d'' ''a.b'') = cacheKey (Tag ''b.c'' ''d'' ''a'') \<and>
   (\<exists>st' errs.
      validate doubling
        (fst (defaultState []) \<lparr>tags := [(''a.b'', [Tag ''c'' ''d'' ''a.b'']),
                                          (''a'', [Tag ''b.c'' ''d'' ''a''])]\<rparr>,
         snd (defaultState [])) = Inr (st', errs) \<and>
      Errorf duplicateMsg [''d'', ''a'', ''b.c''] \<in> set errs)"
proof -
  let ?t1 = "Tag ''c'' ''d'' ''a.b''" and ?t2 = "Tag ''b.c'' ''d'' ''a''"
  let ?ts = "[(''a.b'', [?t1]), (''a'', [?t2])]"
  obtain v h where st: "defaultState [] = (v, h)" by (cases "defaultState []")
  have key: "cacheKey ?t1 = cacheKey ?t2" by (simp add: cacheKey_def)
  have "wellFormed (v, h)" using wellFormed_defaultState [of "[]"] st by simp
  then have wf: "wellFormed (v\<lparr>tags := ?ts\<rparr>, h)" by (simp add: wellFormed_def)
  have "\<not> allowDuplicates (fst (defaultState []))" by code_simp
  then have nd: "\<not> allowDuplicates (v\<lparr>tags := ?ts\<rparr>)" using st by simp
  have "case validate doubling (fst (defaultState []) \<lparr>tags := ?ts\<rparr>, snd (defaultState [])) of
          Inl p \<Rightarrow> False | Inr r \<Rightarrow> True"
    by code_simp
  then obtain st' errs where ret: "validate doubling (v\<lparr>tags := ?ts\<rparr>, h) = Inr (st', errs)"
    unfolding st by (cases "validate doubling (v\<lparr>tags := ?ts\<rparr>, h)") auto
  have cat: "concat (map snd (tags (v\<lparr>tags := ?ts\<rparr>))) = [?t1] @ ?t2 # []" by simp
  have mem: "?t1 \<in> set [?t1]" by simp
  from validate_key_collision [OF wf nd ret cat mem key]
  have "Errorf duplicateMsg [''d'', ''a'', ''b.c''] \<in> set errs" by simp
  then show ?thesis unfolding st using ret key by simp
qed

text \<open>
  C1 at the input of two tags \<open>(S, b.c, d)\<close> and \<open>(S, b, c.d)\<close> with the default
  processors registered for \<open>b.c\<close> and \<open>b\<close>: the triples differ, so each is a first
  occurrence, and the run reports the second as a duplicate.
\<close>

theorem duplicate_first_occurrence_flagged:
  "Tag ''b.c'' ''d'' ''S'' \<noteq> Tag ''b'' ''c.d'' ''S'' \<and>
   map_sum id snd
     (Run (exampleEnv examplePkgs [Tag ''b.c'' ''d'' ''S'', Tag ''b'' ''c.d'' ''S'']) doubling []
        (defaultState [''b.c'', ''b''])) =
     Inr [Errorf duplicateMsg [''c.d'', ''S'', ''b''],
          Errorf symbolsMsg [''.'', ''S'', ''b'', ''c.d'']]"
  by code_simp

end
